theory Spec2Isabelle
  imports Main "HOL-Library.Word"
begin

section \<open>Python strings\<close>

text \<open>
  A Python \<open>str\<close> is a sequence of Unicode code points; it is modelled as a list of
  natural numbers. A literal of the source is written \<open>py ''...''\<close>.
\<close>

type_synonym pystr = "nat list"

abbreviation py :: "string \<Rightarrow> pystr" where
  "py s \<equiv> map of_char s"

abbreviation comma :: nat where
  "comma \<equiv> of_char CHR '',''"

abbreviation nl :: nat where
  "nl \<equiv> of_char CHR 0x0A"

text \<open>
  \<open>str.isspace\<close> for one code point, which is what \<open>str.strip()\<close> without an argument
  tests: U+0009..U+000D, U+001C..U+0020, U+0085, U+00A0, U+1680, U+2000..U+200A, U+2028,
  U+2029, U+202F, U+205F and U+3000.
\<close>

definition isspace :: "nat \<Rightarrow> bool" where
  "isspace c \<longleftrightarrow>
     (9 \<le> c \<and> c \<le> 13) \<or> (28 \<le> c \<and> c \<le> 32) \<or> c = 133 \<or> c = 160 \<or> c = 5760 \<or>
     (8192 \<le> c \<and> c \<le> 8202) \<or> c = 8232 \<or> c = 8233 \<or> c = 8239 \<or> c = 8287 \<or> c = 12288"

definition lstrip :: "pystr \<Rightarrow> pystr" where
  "lstrip s = dropWhile isspace s"

definition rstrip :: "pystr \<Rightarrow> pystr" where
  "rstrip s = rev (dropWhile isspace (rev s))"

definition strip :: "pystr \<Rightarrow> pystr" where
  "strip s = rstrip (lstrip s)"

text \<open>
  \<open>s.split(sep)\<close> for a separator of one character: the pieces between the separators,
  empty pieces kept, so the result has one more element than \<open>s\<close> has separators.
\<close>

fun split_on :: "nat \<Rightarrow> pystr \<Rightarrow> pystr list" where
  "split_on sep [] = [[]]"
| "split_on sep (c # cs) =
     (if c = sep then [] # split_on sep cs
      else (case split_on sep cs of
              p # ps \<Rightarrow> (c # p) # ps
            | [] \<Rightarrow> [[c]]))"

text \<open>\<open>s.replace(old, new)\<close> for an \<open>old\<close> of one character.\<close>

definition replace_chr :: "nat \<Rightarrow> pystr \<Rightarrow> pystr \<Rightarrow> pystr" where
  "replace_chr old new s = concat (map (\<lambda>c. if c = old then new else [c]) s)"

section \<open>Loading the contacts\<close>

text \<open>
  \<open>bytes.decode('utf-8')\<close> in strict mode: \<open>utf8_next\<close> reads one code point and
  returns it with the remaining bytes, or fails where Python raises \<open>UnicodeDecodeError\<close>
  (a stray continuation byte, a truncated or overlong sequence, a surrogate, a value above
  U+10FFFF).
\<close>

definition is_cont :: "nat \<Rightarrow> bool" where
  "is_cont b \<longleftrightarrow> 128 \<le> b \<and> b \<le> 191"

text \<open>
  The second byte of a sequence is narrowed after the lead bytes E0 and F0 (no overlong
  form), ED (no surrogate) and F4 (nothing above U+10FFFF).
\<close>

definition second_ok :: "nat \<Rightarrow> nat \<Rightarrow> bool" where
  "second_ok b0 b1 \<longleftrightarrow>
     (if b0 = 224 then 160 else if b0 = 240 then 144 else 128) \<le> b1 \<and>
     b1 \<le> (if b0 = 237 then 159 else if b0 = 244 then 143 else 191)"

fun utf8_next :: "nat list \<Rightarrow> (nat \<times> nat list) option" where
  "utf8_next [] = None"
| "utf8_next (b0 # bs) =
     (if b0 < 128 then Some (b0, bs)
      else if 194 \<le> b0 \<and> b0 \<le> 223 then
        (case bs of
           b1 # r \<Rightarrow> if is_cont b1 then Some ((b0 - 192) * 64 + (b1 - 128), r) else None
         | _ \<Rightarrow> None)
      else if 224 \<le> b0 \<and> b0 \<le> 239 then
        (case bs of
           b1 # b2 # r \<Rightarrow>
             if second_ok b0 b1 \<and> is_cont b2
             then Some ((b0 - 224) * 4096 + (b1 - 128) * 64 + (b2 - 128), r) else None
         | _ \<Rightarrow> None)
      else if 240 \<le> b0 \<and> b0 \<le> 244 then
        (case bs of
           b1 # b2 # b3 # r \<Rightarrow>
             if second_ok b0 b1 \<and> is_cont b2 \<and> is_cont b3
             then Some ((b0 - 240) * 262144 + (b1 - 128) * 4096 + (b2 - 128) * 64 + (b3 - 128), r)
             else None
         | _ \<Rightarrow> None)
      else None)"

lemma utf8_next_shorter: "utf8_next bs = Some (c, r) \<Longrightarrow> length r < length bs"
  by (cases bs) (auto split: if_splits list.splits)

function utf8_decode :: "nat list \<Rightarrow> pystr option" where
  "utf8_decode bs =
     (if bs = [] then Some []
      else (case utf8_next bs of
              None \<Rightarrow> None
            | Some (c, r) \<Rightarrow> (case utf8_decode r of None \<Rightarrow> None | Some s \<Rightarrow> Some (c # s))))"
  by pat_completeness auto
termination
  by (relation "measure length") (auto simp: utf8_next_shorter)

declare utf8_decode.simps [simp del]

record contact =
  Name :: pystr
  Address :: pystr
  Birthdate :: pystr

text \<open>The dictionary appended for a line, from its \<open>parts\<close>.\<close>

definition contact_of_parts :: "pystr list \<Rightarrow> contact" where
  "contact_of_parts parts =
     \<lparr>Name = strip (parts ! 0), Address = strip (parts ! 1), Birthdate = strip (parts ! 2)\<rparr>"

text \<open>
  The body of the loop over the lines in \<open>load_contacts_from_file\<close>: \<open>contacts\<close> is the
  list built so far. The parts are read by index only where there are three of them.
\<close>

definition load_line :: "pystr \<Rightarrow> contact list \<Rightarrow> contact list" where
  "load_line line contacts =
     (if strip line \<noteq> [] then
        (let parts = split_on comma line in
         if length parts \<ge> 3 then contacts @ [contact_of_parts parts]
         else contacts)
      else contacts)"

text \<open>The \<open>try\<close> block after the decoding: from the text to the rows of the data frame.\<close>

definition load_contacts_from_text :: "pystr \<Rightarrow> contact list" where
  "load_contacts_from_text content = fold load_line (split_on nl (strip content)) []"

text \<open>
  The parser as the specification words it, to be compared with the loop: a line of the
  text has a record when it is not blank and has at least three fields between its
  commas, and the record is made of the first three fields, trimmed.
\<close>

definition line_has_record :: "pystr \<Rightarrow> bool" where
  "line_has_record line \<longleftrightarrow> strip line \<noteq> [] \<and> 3 \<le> length (split_on comma line)"

definition record_of_line :: "pystr \<Rightarrow> contact" where
  "record_of_line line =
     (let parts = split_on comma line in
      \<lparr>Name = strip (parts ! 0), Address = strip (parts ! 1), Birthdate = strip (parts ! 2)\<rparr>)"

definition records_of_text :: "pystr \<Rightarrow> contact list" where
  "records_of_text content =
     map record_of_line (filter line_has_record (split_on nl content))"

datatype py_error = UnicodeDecodeError | KeyError

text \<open>
  What a call of \<open>load_contacts_from_file\<close> leaves behind: its calls of \<open>st.error\<close>
  and the rows of the data frame it returns.
\<close>

record load_result =
  st_error :: "py_error list"
  frame :: "contact list"

definition load_contacts_from_file :: "8 word list \<Rightarrow> load_result" where
  "load_contacts_from_file uploaded_file =
     (case utf8_decode (map unat uploaded_file) of
        Some content \<Rightarrow> \<lparr>st_error = [], frame = load_contacts_from_text content\<rparr>
      | None \<Rightarrow> \<lparr>st_error = [UnicodeDecodeError], frame = []\<rparr>)"

section \<open>Dates\<close>

text \<open>
  A naive \<open>datetime\<close> of Python, as \<open>datetime.now()\<close> and \<open>datetime.strptime\<close> return
  it. The functions below follow the library's own arithmetic (its pure Python version).
\<close>

record datetime =
  year :: nat
  month :: nat
  day :: nat
  hour :: nat
  minute :: nat
  second :: nat
  microsecond :: nat

definition is_leap :: "nat \<Rightarrow> bool" where
  "is_leap y \<longleftrightarrow> y mod 4 = 0 \<and> (y mod 100 \<noteq> 0 \<or> y mod 400 = 0)"

definition days_in_month :: "nat \<Rightarrow> nat \<Rightarrow> nat" where
  "days_in_month y m =
     (if m = 2 \<and> is_leap y then 29
      else [31, 28, 31, 30, 31, 30, 31, 31, 30, 31, 30, 31] ! (m - 1))"

definition days_before_year :: "nat \<Rightarrow> int" where
  "days_before_year y = (let p = int y - 1 in p * 365 + p div 4 - p div 100 + p div 400)"

definition days_before_month :: "nat \<Rightarrow> nat \<Rightarrow> int" where
  "days_before_month y m =
     [0, 31, 59, 90, 120, 151, 181, 212, 243, 273, 304, 334] ! (m - 1) +
     (if m > 2 \<and> is_leap y then 1 else 0)"

definition toordinal :: "datetime \<Rightarrow> int" where
  "toordinal d = days_before_year (year d) + days_before_month (year d) (month d) + int (day d)"

text \<open>What the constructor of \<open>datetime\<close> accepts; \<open>datetime.now()\<close> is such a value.\<close>

definition valid_datetime :: "datetime \<Rightarrow> bool" where
  "valid_datetime d \<longleftrightarrow>
     1 \<le> year d \<and> year d \<le> 9999 \<and> 1 \<le> month d \<and> month d \<le> 12 \<and>
     1 \<le> day d \<and> day d \<le> days_in_month (year d) (month d) \<and>
     hour d < 24 \<and> minute d < 60 \<and> second d < 60 \<and> microsecond d < 1000000"

definition at_midnight :: "datetime \<Rightarrow> bool" where
  "at_midnight d \<longleftrightarrow> hour d = 0 \<and> minute d = 0 \<and> second d = 0 \<and> microsecond d = 0"

text \<open>\<open>a < b\<close> on naive datetimes: the fields are compared in order.\<close>

fun lex_less :: "nat list \<Rightarrow> nat list \<Rightarrow> bool" where
  "lex_less (x # xs) (y # ys) = (x < y \<or> (x = y \<and> lex_less xs ys))"
| "lex_less [] (y # ys) = True"
| "lex_less xs [] = False"

definition cmp_key :: "datetime \<Rightarrow> nat list" where
  "cmp_key d = [year d, month d, day d, hour d, minute d, second d, microsecond d]"

definition dt_less :: "datetime \<Rightarrow> datetime \<Rightarrow> bool" where
  "dt_less a b = lex_less (cmp_key a) (cmp_key b)"

text \<open>
  \<open>(a - b).days\<close>: the difference is a \<open>timedelta\<close>, normalised so that its seconds and
  microseconds are not negative; its days are the difference rounded down.
\<close>

definition seconds_of_day :: "datetime \<Rightarrow> int" where
  "seconds_of_day d = int (second d) + int (minute d) * 60 + int (hour d) * 3600"

definition sub_days :: "datetime \<Rightarrow> datetime \<Rightarrow> int" where
  "sub_days a b =
     ((toordinal a - toordinal b) * 86400000000 +
      (seconds_of_day a - seconds_of_day b) * 1000000 +
      (int (microsecond a) - int (microsecond b))) div 86400000000"

text \<open>\<open>d.replace(year=y)\<close>: a new value, checked as the constructor checks it.\<close>

definition replace_year :: "datetime \<Rightarrow> nat \<Rightarrow> datetime option" where
  "replace_year d y =
     (if 1 \<le> y \<and> y \<le> 9999 \<and> day d \<le> days_in_month y (month d)
      then Some (d\<lparr>year := y\<rparr>) else None)"

subsection \<open>Parsing and printing in the format \<open>%m/%d/%Y\<close>\<close>

text \<open>
  \<open>strptime\<close> matches the text against a regular expression and converts the groups with
  \<open>int\<close>. The group of \<open>%m\<close> is \<open>1[0-2]|0[1-9]|[1-9]\<close>, the group of \<open>%d\<close> is
  \<open>3[0-1]|[1-2]\d|0[1-9]|[1-9]| [1-9]\<close> and the group of \<open>%Y\<close> is \<open>\d\d\d\d\<close>. A range
  such as \<open>[1-9]\<close> holds ASCII digits only; \<open>\d\<close> is any decimal digit of Unicode.

  The decimal digits beyond ASCII and their values come from the Unicode tables of the
  interpreter, which are no part of the program: they are the parameter \<open>udb\<close>.
\<close>

type_synonym unicode_db = "nat \<Rightarrow> nat option"

definition decimal :: "unicode_db \<Rightarrow> nat \<Rightarrow> nat option" where
  "decimal udb c =
     (if 48 \<le> c \<and> c \<le> 57 then Some (c - 48) else if c < 128 then None else udb c)"

definition digit19 :: "nat \<Rightarrow> bool" where
  "digit19 c \<longleftrightarrow> 49 \<le> c \<and> c \<le> 57"

fun group_m :: "pystr \<Rightarrow> nat option" where
  "group_m [a] = (if digit19 a then Some (a - 48) else None)"
| "group_m [a, b] =
     (if a = 49 \<and> 48 \<le> b \<and> b \<le> 50 then Some (10 + (b - 48))
      else if a = 48 \<and> digit19 b then Some (b - 48)
      else None)"
| "group_m s = None"

fun group_d :: "unicode_db \<Rightarrow> pystr \<Rightarrow> nat option" where
  "group_d udb [a] = (if digit19 a then Some (a - 48) else None)"
| "group_d udb [a, b] =
     (if a = 51 \<and> (b = 48 \<or> b = 49) then Some (30 + (b - 48))
      else if a = 49 \<or> a = 50 then
        (case decimal udb b of Some v \<Rightarrow> Some ((a - 48) * 10 + v) | None \<Rightarrow> None)
      else if (a = 48 \<or> a = 32) \<and> digit19 b then Some (b - 48)
      else None)"
| "group_d udb s = None"

fun group_Y :: "unicode_db \<Rightarrow> pystr \<Rightarrow> nat option" where
  "group_Y udb [a, b, c, d] =
     (case (decimal udb a, decimal udb b, decimal udb c, decimal udb d) of
        (Some a', Some b', Some c', Some d') \<Rightarrow> Some (a' * 1000 + b' * 100 + c' * 10 + d')
      | _ \<Rightarrow> None)"
| "group_Y udb s = None"

text \<open>
  The expression is the three groups with a \<open>/\<close> between them, and the whole text has to
  be matched; no group can hold a \<open>/\<close>, so the text matches if and only if it has three
  pieces between its \<open>/\<close> and each piece matches its group. The date is then built, which
  raises \<open>ValueError\<close> for the year 0 and for a day the month does not have. \<open>None\<close> is
  the \<open>ValueError\<close>.
\<close>

definition strptime_mdY :: "unicode_db \<Rightarrow> pystr \<Rightarrow> datetime option" where
  "strptime_mdY udb s =
     (case split_on (of_char CHR ''/'') s of
        [m, d, y] \<Rightarrow>
          (case (group_m m, group_d udb d, group_Y udb y) of
             (Some mo, Some dd, Some yy) \<Rightarrow>
               if 1 \<le> yy \<and> dd \<le> days_in_month yy mo
               then Some \<lparr>year = yy, month = mo, day = dd, hour = 0, minute = 0, second = 0,
                           microsecond = 0\<rparr>
               else None
           | _ \<Rightarrow> None)
      | _ \<Rightarrow> None)"

text \<open>\<open>strftime('%m/%d/%Y')\<close>, for a year of four digits.\<close>

definition pad2 :: "nat \<Rightarrow> pystr" where
  "pad2 n = [48 + n div 10 mod 10, 48 + n mod 10]"

definition pad4 :: "nat \<Rightarrow> pystr" where
  "pad4 n = [48 + n div 1000 mod 10, 48 + n div 100 mod 10, 48 + n div 10 mod 10, 48 + n mod 10]"

definition strftime_mdY :: "datetime \<Rightarrow> pystr" where
  "strftime_mdY d = pad2 (month d) @ py ''/'' @ pad2 (day d) @ py ''/'' @ pad4 (year d)"

section \<open>Upcoming birthdays\<close>

record upcoming = contact +
  Days_Until :: int
  This_Year_Birthday :: pystr

text \<open>
  The statements of the \<open>try\<close> block in \<open>check_upcoming_birthdays\<close> up to the
  assignment of \<open>days_until\<close>: the value of \<open>this_year_birthday\<close> after the
  \<open>if\<close>, or \<open>None\<close> when one of them raises. \<open>today\<close> is what \<open>datetime.now()\<close>
  returned.
\<close>

definition birth_str :: "pystr \<Rightarrow> pystr" where
  "birth_str birthdate =
     replace_chr (of_char CHR ''.'') (py ''/'')
       (replace_chr (of_char CHR ''-'') (py ''/'') birthdate)"

definition this_year_birthday :: "unicode_db \<Rightarrow> datetime \<Rightarrow> pystr \<Rightarrow> datetime option" where
  "this_year_birthday udb today birthdate =
     (case strptime_mdY udb (birth_str birthdate) of
        None \<Rightarrow> None
      | Some birth_date \<Rightarrow>
          (case replace_year birth_date (year today) of
             None \<Rightarrow> None
           | Some tyb \<Rightarrow>
               if dt_less tyb today then replace_year birth_date (year today + 1)
               else Some tyb))"

text \<open>
  One turn of the loop: \<open>upcoming\<close> is the list built so far. The bare \<open>except\<close>
  goes on with the next row and leaves the list as it is.
\<close>

definition check_row :: "unicode_db \<Rightarrow> datetime \<Rightarrow> int \<Rightarrow> contact \<Rightarrow> upcoming list \<Rightarrow> upcoming list" where
  "check_row udb today days_ahead contact upcoming =
     (case this_year_birthday udb today (Birthdate contact) of
        None \<Rightarrow> upcoming
      | Some tyb \<Rightarrow>
          (let days_until = sub_days tyb today in
           if 0 \<le> days_until \<and> days_until \<le> days_ahead then
             upcoming @ [\<lparr>Name = Name contact, Address = Address contact,
                          Birthdate = Birthdate contact, Days_Until = days_until,
                          This_Year_Birthday = strftime_mdY tyb\<rparr>]
           else upcoming))"

definition check_upcoming_birthdays :: "unicode_db \<Rightarrow> datetime \<Rightarrow> contact list \<Rightarrow> int \<Rightarrow> upcoming list" where
  "check_upcoming_birthdays udb today contacts_df days_ahead =
     (if contacts_df = [] then []
      else fold (check_row udb today days_ahead) contacts_df [])"

text \<open>
  The value of \<open>days_until\<close> for a row, where the statements before it do not raise,
  and the columns of a row of the result that come from the contact.
\<close>

definition days_until_of :: "unicode_db \<Rightarrow> datetime \<Rightarrow> contact \<Rightarrow> int option" where
  "days_until_of udb today contact =
     (case this_year_birthday udb today (Birthdate contact) of
        None \<Rightarrow> None
      | Some tyb \<Rightarrow> Some (sub_days tyb today))"

definition in_window :: "unicode_db \<Rightarrow> datetime \<Rightarrow> int \<Rightarrow> contact \<Rightarrow> bool" where
  "in_window udb today days_ahead contact =
     (case days_until_of udb today contact of
        None \<Rightarrow> False
      | Some days_until \<Rightarrow> 0 \<le> days_until \<and> days_until \<le> days_ahead)"

definition contact_of :: "upcoming \<Rightarrow> contact" where
  "contact_of r = \<lparr>Name = Name r, Address = Address r, Birthdate = Birthdate r\<rparr>"

text \<open>
  The same function as a machine that runs: a state is the rows still to visit and the
  list \<open>upcoming\<close>; a step visits one row, and either the \<open>try\<close> block raises, or the
  days are outside the window, or a row is appended. A run of the function is the early
  return for an empty frame, or steps from the whole frame and the empty list to the end
  of the frame.
\<close>

inductive loop_step :: "unicode_db \<Rightarrow> datetime \<Rightarrow> int \<Rightarrow>
    contact list \<times> upcoming list \<Rightarrow> contact list \<times> upcoming list \<Rightarrow> bool"
  for udb :: unicode_db and today :: datetime and days_ahead :: int where
  raised:
    "this_year_birthday udb today (Birthdate contact) = None \<Longrightarrow>
     loop_step udb today days_ahead (contact # rest, upcoming) (rest, upcoming)"
| outside:
    "this_year_birthday udb today (Birthdate contact) = Some tyb \<Longrightarrow>
     days_until = sub_days tyb today \<Longrightarrow>
     \<not> (0 \<le> days_until \<and> days_until \<le> days_ahead) \<Longrightarrow>
     loop_step udb today days_ahead (contact # rest, upcoming) (rest, upcoming)"
| appended:
    "this_year_birthday udb today (Birthdate contact) = Some tyb \<Longrightarrow>
     days_until = sub_days tyb today \<Longrightarrow>
     0 \<le> days_until \<Longrightarrow> days_until \<le> days_ahead \<Longrightarrow>
     loop_step udb today days_ahead (contact # rest, upcoming)
       (rest, upcoming @ [\<lparr>Name = Name contact, Address = Address contact,
                            Birthdate = Birthdate contact, Days_Until = days_until,
                            This_Year_Birthday = strftime_mdY tyb\<rparr>])"

inductive run :: "unicode_db \<Rightarrow> datetime \<Rightarrow> contact list \<Rightarrow> int \<Rightarrow> upcoming list \<Rightarrow> bool"
  for udb :: unicode_db and today :: datetime where
  empty_frame: "run udb today [] days_ahead []"
| looped:
    "contacts_df \<noteq> [] \<Longrightarrow>
     (loop_step udb today days_ahead)\<^sup>*\<^sup>* (contacts_df, []) ([], upcoming) \<Longrightarrow>
     run udb today contacts_df days_ahead upcoming"

section \<open>The card and the postage link\<close>

definition generate_usps_postage_link :: "pystr \<Rightarrow> pystr" where
  "generate_usps_postage_link address =
     (let base_url = py ''https://cns.usps.com/mailpieces'';
          encoded_address = replace_chr (of_char CHR '','') (py ''%2C'')
                              (replace_chr (of_char CHR '' '') (py ''%20'') address)
      in base_url @ py ''?destination='' @ encoded_address)"

text \<open>The escaping as the specification words it: character by character, in one pass.\<close>

definition escape_chr :: "nat \<Rightarrow> pystr" where
  "escape_chr c =
     (if c = of_char CHR '' '' then py ''%20''
      else if c = of_char CHR '','' then py ''%2C''
      else [c])"

text \<open>
  The card. \<open>d[k]\<close> raises \<open>KeyError\<close> for a key the dictionary does not have;
  \<open>d.get(k, default)\<close> never raises.
\<close>

definition dict_index :: "('k \<rightharpoonup> 'v) \<Rightarrow> 'k \<Rightarrow> py_error + 'v" where
  "dict_index d k = (case d k of Some v \<Rightarrow> Inr v | None \<Rightarrow> Inl KeyError)"

definition dict_get :: "('k \<rightharpoonup> 'v) \<Rightarrow> 'k \<Rightarrow> 'v \<Rightarrow> 'v" where
  "dict_get d k dflt = (case d k of Some v \<Rightarrow> v | None \<Rightarrow> dflt)"

record template =
  bg :: pystr
  text' :: pystr

definition templates :: "pystr \<rightharpoonup> template" where
  "templates =
     [py ''Classic'' \<mapsto> \<lparr>bg = py ''#FFE4E1'', text' = py ''#8B0000''\<rparr>,
      py ''Modern'' \<mapsto> \<lparr>bg = py ''#E6E6FA'', text' = py ''#4B0082''\<rparr>,
      py ''Fun'' \<mapsto> \<lparr>bg = py ''#FFB6C1'', text' = py ''#FF1493''\<rparr>,
      py ''Elegant'' \<mapsto> \<lparr>bg = py ''#F0F8FF'', text' = py ''#191970''\<rparr>]"

text \<open>
  The image is what was asked of the imaging library: the size and colour given to
  \<open>Image.new\<close> and the calls of \<open>draw.text\<close> in their order. The library measures
  the texts; the width of a text's box in the title font and in the text font (the
  TrueType font or, where it is missing, the default one) are the parameters
  \<open>title_width\<close> and \<open>text_width\<close>.
\<close>

record text_call =
  xy :: "int \<times> int"
  text_arg :: pystr
  fill :: pystr

record image =
  img_size :: "int \<times> int"
  img_color :: pystr
  draws :: "text_call list"

record fonts =
  title_width :: "pystr \<Rightarrow> int"
  text_width :: "pystr \<Rightarrow> int"

definition draw_text :: "image \<Rightarrow> int \<times> int \<Rightarrow> pystr \<Rightarrow> pystr \<Rightarrow> image" where
  "draw_text img pos t colour = img\<lparr>draws := draws img @ [\<lparr>xy = pos, text_arg = t, fill = colour\<rparr>]\<rparr>"

text \<open>\<open>s.split()\<close>: the words between runs of white space.\<close>

function py_split :: "pystr \<Rightarrow> pystr list" where
  "py_split s =
     (let s' = dropWhile isspace s in
      if s' = [] then []
      else takeWhile (\<lambda>c. \<not> isspace c) s' # py_split (dropWhile (\<lambda>c. \<not> isspace c) s'))"
  by pat_completeness auto

lemma dropWhile_nonspace_shorter:
  "dropWhile isspace s \<noteq> [] \<Longrightarrow>
   length (dropWhile (\<lambda>c. \<not> isspace c) (dropWhile isspace s)) < length s"
proof -
  assume ne: "dropWhile isspace s \<noteq> []"
  then obtain c r where cr: "dropWhile isspace s = c # r"
    by (cases "dropWhile isspace s") auto
  then have "\<not> isspace c"
    using hd_dropWhile [of isspace s] ne by auto
  then have "length (dropWhile (\<lambda>c. \<not> isspace c) (c # r)) \<le> length r"
    by (simp add: length_dropWhile_le)
  moreover have "length (c # r) \<le> length s"
    using length_dropWhile_le [of isspace s] cr by simp
  ultimately show ?thesis using cr by simp
qed

termination py_split
  by (relation "measure length") (auto simp: dropWhile_nonspace_shorter)

declare py_split.simps [simp del]

text \<open>\<open>sep.join(xs)\<close>.\<close>

fun join :: "pystr \<Rightarrow> pystr list \<Rightarrow> pystr" where
  "join sep [] = []"
| "join sep [x] = x"
| "join sep (x # y # ys) = x @ sep @ join sep (y # ys)"

text \<open>One turn of the loop that wraps the message; the state is \<open>(lines, current_line)\<close>.\<close>

definition wrap_word :: "fonts \<Rightarrow> int \<Rightarrow> pystr \<Rightarrow> pystr list \<times> pystr list \<Rightarrow> pystr list \<times> pystr list" where
  "wrap_word f width word st =
     (let lines = fst st; current_line = snd st;
          test_line = join (py '' '') (current_line @ [word]);
          test_width = text_width f test_line
      in if test_width \<le> width - 40 then (lines, current_line @ [word])
         else (if current_line \<noteq> [] then lines @ [join (py '' '') current_line] else lines,
               [word]))"

text \<open>One turn of the loop that draws the lines; the state is \<open>(img, y_offset)\<close>.\<close>

definition draw_line :: "fonts \<Rightarrow> int \<Rightarrow> pystr \<Rightarrow> pystr \<Rightarrow> image \<times> int \<Rightarrow> image \<times> int" where
  "draw_line f width colour line st =
     (let img = fst st; y_offset = snd st;
          line_width = text_width f line;
          line_x = (width - line_width) div 2
      in (draw_text img (line_x, y_offset) line colour, y_offset + 25))"

text \<open>
  \<open>create_birthday_card\<close> in two parts: the choice of the template, and in
  \<open>render_card\<close> the statements after it, which only read the chosen \<open>template\<close>.
\<close>

definition render_card :: "fonts \<Rightarrow> template \<Rightarrow> pystr \<Rightarrow> pystr \<Rightarrow> image" where
  "render_card f template message recipient_name =
     (let width = 400; height = 300;
          img = \<lparr>img_size = (width, height), img_color = bg template, draws = []\<rparr>;
          title = py ''Happy Birthday, '' @ recipient_name @ py ''!'';
          title_x = (width - title_width f title) div 2;
          img = draw_text img (title_x, 50) title (text' template);
          words = py_split message;
          wrapped = fold (wrap_word f width) words ([], []);
          lines = (if snd wrapped \<noteq> [] then fst wrapped @ [join (py '' '') (snd wrapped)]
                   else fst wrapped)
      in fst (fold (draw_line f width (text' template)) lines (img, 120)))"

definition create_birthday_card :: "fonts \<Rightarrow> pystr \<Rightarrow> pystr \<Rightarrow> pystr \<Rightarrow> py_error + image" where
  "create_birthday_card f card_type message recipient_name =
     (case dict_index templates (py ''Classic'') of
        Inl e \<Rightarrow> Inl e
      | Inr classic \<Rightarrow>
          Inr (render_card f (dict_get templates card_type classic) message recipient_name))"

section \<open>Example data\<close>

text \<open>The 20th of July 2024, at midnight and at noon, and some contacts.\<close>

definition midnight_2024_07_20 :: datetime where
  "midnight_2024_07_20 =
     \<lparr>year = 2024, month = 7, day = 20, hour = 0, minute = 0, second = 0, microsecond = 0\<rparr>"

definition noon_2024_07_20 :: datetime where
  "noon_2024_07_20 =
     \<lparr>year = 2024, month = 7, day = 20, hour = 12, minute = 0, second = 0, microsecond = 0\<rparr>"

definition jane :: contact where
  "jane = \<lparr>Name = py ''Jane Smith'', Address = py ''1 Oak Ave'', Birthdate = py ''07/22/1985''\<rparr>"

definition bob :: contact where
  "bob = \<lparr>Name = py ''Bob Ray'', Address = py ''2 Elm St'', Birthdate = py ''07-27-1990''\<rparr>"

definition carol :: contact where
  "carol = \<lparr>Name = py ''Carol Poe'', Address = py ''3 Ash Rd'', Birthdate = py ''7.28.1971''\<rparr>"

definition dan :: contact where
  "dan = \<lparr>Name = py ''Dan Lee'', Address = py ''4 Fir Ln'', Birthdate = py ''1990-07-21''\<rparr>"

definition eve :: contact where
  "eve = \<lparr>Name = py ''Eve Kim'', Address = py ''5 Bay Ct'', Birthdate = py ''07/20/1985''\<rparr>"

section \<open>Properties of the parser\<close>

lemmas str_eval = strip_def lstrip_def rstrip_def isspace_def

lemma split_on_nonempty: "split_on sep s \<noteq> []"
  by (induction s) (auto split: list.splits)

lemma split_on_Cons_other:
  "c \<noteq> sep \<Longrightarrow> split_on sep (c # s) = (c # hd (split_on sep s)) # tl (split_on sep s)"
  using split_on_nonempty [of sep s] by (cases "split_on sep s") auto

lemma split_on_Cons_sep: "split_on sep (sep # s) = [] # split_on sep s"
  by simp

lemma split_on_snoc_sep: "split_on sep (s @ [sep]) = split_on sep s @ [[]]"
  by (induction s) (auto simp: split_on_nonempty split: list.splits)

lemma split_on_snoc_other:
  "c \<noteq> sep \<Longrightarrow>
   split_on sep (s @ [c]) = butlast (split_on sep s) @ [last (split_on sep s) @ [c]]"
proof (induction s)
  case Nil
  then show ?case by simp
next
  case (Cons a s)
  obtain p ps where pps: "split_on sep s = p # ps"
    using split_on_nonempty [of sep s] by (cases "split_on sep s") auto
  obtain q qs where qqs: "split_on sep (s @ [c]) = q # qs"
    using split_on_nonempty [of sep "s @ [c]"] by (cases "split_on sep (s @ [c])") auto
  from Cons pps qqs show ?case
    by (cases ps) (auto split: if_splits)
qed

lemma isspace_not_comma: "isspace c \<Longrightarrow> c \<noteq> comma"
  by (auto simp: isspace_def)

lemma lstrip_Cons_space: "isspace c \<Longrightarrow> lstrip (c # s) = lstrip s"
  by (simp add: lstrip_def)

lemma strip_Cons_space: "isspace c \<Longrightarrow> strip (c # s) = strip s"
  by (simp add: strip_def lstrip_def)

lemma rstrip_snoc_space: "isspace c \<Longrightarrow> rstrip (s @ [c]) = rstrip s"
  by (simp add: rstrip_def)

lemma rstrip_Nil: "rstrip [] = []"
  by (simp add: rstrip_def)

lemma strip_snoc_space:
  assumes "isspace c"
  shows "strip (s @ [c]) = strip s"
proof (cases "\<forall>x \<in> set s. isspace x")
  case True
  with assms have "lstrip (s @ [c]) = []" "lstrip s = []"
    by (simp_all add: lstrip_def)
  then show ?thesis by (simp add: strip_def)
next
  case False
  then have "lstrip (s @ [c]) = lstrip s @ [c]"
    by (auto simp: lstrip_def)
  with assms show ?thesis by (simp add: strip_def rstrip_snoc_space)
qed


lemma strip_Nil: "strip [] = []"
  by (simp add: strip_def lstrip_def rstrip_def)

lemma no_record_Nil: "\<not> line_has_record []"
  by (simp add: line_has_record_def strip_Nil)

lemma has_record_Cons_space:
  assumes "isspace c"
  shows "line_has_record (c # l) = line_has_record l"
    and "record_of_line (c # l) = record_of_line l"
proof -
  obtain p ps where pps: "split_on comma l = p # ps"
    using split_on_nonempty [of comma l] by (cases "split_on comma l") auto
  with assms have "split_on comma (c # l) = (c # p) # ps"
    using isspace_not_comma [OF assms] by simp
  with pps assms show "line_has_record (c # l) = line_has_record l"
    and "record_of_line (c # l) = record_of_line l"
    by (simp_all add: line_has_record_def record_of_line_def strip_Cons_space del: split_on.simps)
qed

lemma has_record_snoc_space:
  assumes "isspace c"
  shows "line_has_record (l @ [c]) = line_has_record l"
    and "line_has_record l \<Longrightarrow> record_of_line (l @ [c]) = record_of_line l"
proof -
  let ?ps = "split_on comma l"
  have sp: "split_on comma (l @ [c]) = butlast ?ps @ [last ?ps @ [c]]"
    using split_on_snoc_other [OF isspace_not_comma [OF assms]] by simp
  have ne: "?ps \<noteq> []" by (rule split_on_nonempty)
  then have len: "length (butlast ?ps @ [last ?ps @ [c]]) = length ?ps"
    by (cases ?ps) auto
  show "line_has_record (l @ [c]) = line_has_record l"
    unfolding line_has_record_def sp len strip_snoc_space [OF assms] ..
  assume "line_has_record l"
  then have three: "3 \<le> length ?ps" by (simp add: line_has_record_def)
  have nth: "strip ((butlast ?ps @ [last ?ps @ [c]]) ! i) = strip (?ps ! i)" if "i < 3" for i
  proof (cases "i < length ?ps - 1")
    case True
    then show ?thesis by (simp add: nth_append nth_butlast)
  next
    case False
    with that three have i: "i = length ?ps - 1" by simp
    then have "(butlast ?ps @ [last ?ps @ [c]]) ! i = last ?ps @ [c]"
      by (simp add: nth_append)
    moreover have "?ps ! i = last ?ps"
      using i ne by (simp add: last_conv_nth)
    ultimately show ?thesis by (simp add: strip_snoc_space [OF assms])
  qed
  show "record_of_line (l @ [c]) = record_of_line l"
    unfolding record_of_line_def sp Let_def using nth [of 0] nth [of 1] nth [of 2] by simp
qed

lemma records_Cons_space:
  assumes "isspace c"
  shows "records_of_text (c # s) = records_of_text s"
proof (cases "c = nl")
  case True
  then show ?thesis
    by (simp add: records_of_text_def no_record_Nil)
next
  case False
  obtain p ps where pps: "split_on nl s = p # ps"
    using split_on_nonempty [of nl s] by (cases "split_on nl s") auto
  with False have "split_on nl (c # s) = (c # p) # ps" by simp
  with pps show ?thesis
    unfolding records_of_text_def
    by (simp add: has_record_Cons_space [OF assms] del: split_on.simps)
qed

lemma records_snoc_space:
  assumes "isspace c"
  shows "records_of_text (s @ [c]) = records_of_text s"
proof (cases "c = nl")
  case True
  then show ?thesis
    by (simp add: records_of_text_def split_on_snoc_sep no_record_Nil)
next
  case False
  let ?ls = "split_on nl s"
  have ne: "?ls \<noteq> []" by (rule split_on_nonempty)
  have sp: "split_on nl (s @ [c]) = butlast ?ls @ [last ?ls @ [c]]"
    using split_on_snoc_other [of c nl s] False by simp
  have "map record_of_line (filter line_has_record (butlast ?ls @ [last ?ls @ [c]])) =
        map record_of_line (filter line_has_record (butlast ?ls @ [last ?ls]))"
    by (simp add: has_record_snoc_space [OF assms])
  also have "butlast ?ls @ [last ?ls] = ?ls"
    using ne by simp
  finally show ?thesis
    unfolding records_of_text_def sp .
qed

lemma records_lstrip: "records_of_text (lstrip s) = records_of_text s"
  by (induction s) (simp_all add: lstrip_def records_Cons_space)

lemma records_rstrip: "records_of_text (rstrip s) = records_of_text s"
proof (induction s rule: rev_induct)
  case Nil
  then show ?case by (simp add: rstrip_def)
next
  case (snoc c s)
  show ?case
  proof (cases "isspace c")
    case True
    with snoc show ?thesis by (simp add: rstrip_snoc_space records_snoc_space)
  next
    case False
    then have "rstrip (s @ [c]) = s @ [c]" by (simp add: rstrip_def)
    then show ?thesis by simp
  qed
qed

lemma records_strip: "records_of_text (strip s) = records_of_text s"
  by (simp add: strip_def records_rstrip records_lstrip)

lemma load_line_eq:
  "load_line line contacts =
     contacts @ (if line_has_record line then [record_of_line line] else [])"
  by (simp add: load_line_def line_has_record_def record_of_line_def contact_of_parts_def Let_def)

lemma fold_load_line:
  "fold load_line ls contacts = contacts @ map record_of_line (filter line_has_record ls)"
  by (induction ls arbitrary: contacts) (simp_all add: load_line_eq)

lemma load_text_records: "load_contacts_from_text content = records_of_text content"
proof -
  have "load_contacts_from_text content = records_of_text (strip content)"
    by (simp add: load_contacts_from_text_def fold_load_line records_of_text_def)
  then show ?thesis by (simp add: records_strip)
qed

text \<open>
  C3: for a text that decodes, the parser reports no error and returns, in the order of
  the lines of the raw text, one record for every line that is not blank and has at least
  three fields, made of its first three fields, trimmed; every other line gives nothing.
  The lines are those of the text as it was uploaded: that the source trims the whole
  text first changes nothing.
\<close>

theorem parser_one_record_per_line:
  assumes "utf8_decode (map unat uploaded_file) = Some content"
  shows "load_contacts_from_file uploaded_file =
           \<lparr>st_error = [],
            frame = map record_of_line (filter line_has_record (split_on nl content))\<rparr>"
  using assms load_text_records [of content]
  by (simp add: load_contacts_from_file_def records_of_text_def)

theorem parser_one_record_per_line_witness:
  "utf8_decode (map unat (map of_char
      ''Jane Smith, 1 Oak Ave, 07/22/1985\<newline>\<newline>Bob, 2 Elm St\<newline> Al , 3 Ash Rd , soon , x\<newline>'' :: 8 word list)) =
     Some (py ''Jane Smith, 1 Oak Ave, 07/22/1985\<newline>\<newline>Bob, 2 Elm St\<newline> Al , 3 Ash Rd , soon , x\<newline>'') \<and>
   load_contacts_from_file (map of_char
      ''Jane Smith, 1 Oak Ave, 07/22/1985\<newline>\<newline>Bob, 2 Elm St\<newline> Al , 3 Ash Rd , soon , x\<newline>'') =
     \<lparr>st_error = [],
      frame = [\<lparr>Name = py ''Jane Smith'', Address = py ''1 Oak Ave'', Birthdate = py ''07/22/1985''\<rparr>,
               \<lparr>Name = py ''Al'', Address = py ''3 Ash Rd'', Birthdate = py ''soon''\<rparr>]\<rparr>"
proof -
  have h: "utf8_decode (map unat (map of_char
      ''Jane Smith, 1 Oak Ave, 07/22/1985\<newline>\<newline>Bob, 2 Elm St\<newline> Al , 3 Ash Rd , soon , x\<newline>'' :: 8 word list)) =
     Some (py ''Jane Smith, 1 Oak Ave, 07/22/1985\<newline>\<newline>Bob, 2 Elm St\<newline> Al , 3 Ash Rd , soon , x\<newline>'')"
    by (simp add: utf8_decode.simps)
  from h parser_one_record_per_line [OF h] show ?thesis
    by (simp add: line_has_record_def record_of_line_def str_eval)
qed

text \<open>
  C7: when the uploaded bytes are no UTF-8 text, the parser reports the error and returns
  the empty frame; nothing of the lines before the bad byte is returned.
\<close>

theorem undecodable_upload_is_reported:
  assumes "utf8_decode (map unat uploaded_file) = None"
  shows "load_contacts_from_file uploaded_file = \<lparr>st_error = [UnicodeDecodeError], frame = []\<rparr>"
  using assms by (simp add: load_contacts_from_file_def)

theorem undecodable_upload_witness:
  "utf8_decode (map unat (map of_char ''Jane Smith, 1 Oak Ave, 07/22/1985\<newline>'' @ [0xFF] :: 8 word list)) = None \<and>
   load_contacts_from_file (map of_char ''Jane Smith, 1 Oak Ave, 07/22/1985\<newline>'' @ [0xFF]) =
     \<lparr>st_error = [UnicodeDecodeError], frame = []\<rparr>"
proof -
  have h: "utf8_decode (map unat (map of_char ''Jane Smith, 1 Oak Ave, 07/22/1985\<newline>'' @ [0xFF] :: 8 word list)) = None"
    by (simp add: utf8_decode.simps)
  from h undecodable_upload_is_reported [OF h] show ?thesis by simp
qed

section \<open>Properties of the birthday filter\<close>

lemmas date_eval =
  this_year_birthday_def birth_str_def strptime_mdY_def replace_year_def dt_less_def cmp_key_def
  sub_days_def toordinal_def days_before_year_def days_before_month_def days_in_month_def
  is_leap_def seconds_of_day_def decimal_def digit19_def strftime_mdY_def pad2_def pad4_def
  replace_chr_def

lemmas ex_defs =
  midnight_2024_07_20_def noon_2024_07_20_def jane_def bob_def carol_def dan_def eve_def

lemma check_row_cases:
  "check_row udb today H c up =
     (case days_until_of udb today c of
        None \<Rightarrow> up
      | Some d \<Rightarrow> if 0 \<le> d \<and> d \<le> H
                  then up @ [\<lparr>Name = Name c, Address = Address c, Birthdate = Birthdate c, Days_Until = d,
                        This_Year_Birthday = strftime_mdY (the (this_year_birthday udb today (Birthdate c)))\<rparr>]
                  else up)"
  by (simp add: check_row_def days_until_of_def Let_def split: option.splits)

lemma fold_check_row_acc:
  "fold (check_row udb today H) cs up = up @ fold (check_row udb today H) cs []"
proof (induction cs arbitrary: up)
  case Nil
  then show ?case by simp
next
  case (Cons c cs)
  have "fold (check_row udb today H) (c # cs) up = fold (check_row udb today H) cs (check_row udb today H c up)"
    by simp
  also have "\<dots> = check_row udb today H c up @ fold (check_row udb today H) cs []"
    by (rule Cons.IH)
  also have "check_row udb today H c up = up @ check_row udb today H c []"
    by (simp add: check_row_cases split: option.splits)
  finally show ?case
    using Cons.IH [of "check_row udb today H c []"] by simp
qed

lemma check_Nil: "check_upcoming_birthdays udb today [] H = []"
  by (simp add: check_upcoming_birthdays_def)

lemma check_Cons:
  "check_upcoming_birthdays udb today (c # cs) H =
     check_row udb today H c [] @ check_upcoming_birthdays udb today cs H"
  using fold_check_row_acc [of udb today H cs "check_row udb today H c []"]
  by (simp add: check_upcoming_birthdays_def)

lemma check_append:
  "check_upcoming_birthdays udb today (xs @ ys) H =
     check_upcoming_birthdays udb today xs H @ check_upcoming_birthdays udb today ys H"
  by (induction xs) (simp_all add: check_Nil check_Cons)

lemma contacts_of_check:
  "map contact_of (check_upcoming_birthdays udb today cs H) = filter (in_window udb today H) cs"
  by (induction cs) (simp_all add: check_Nil check_Cons check_row_cases in_window_def contact_of_def split: option.splits)

lemma days_of_check:
  "r \<in> set (check_upcoming_birthdays udb today cs H) \<Longrightarrow>
   contact_of r \<in> set cs \<and> days_until_of udb today (contact_of r) = Some (Days_Until r) \<and>
   (\<exists>tyb. this_year_birthday udb today (Birthdate r) = Some tyb \<and> This_Year_Birthday r = strftime_mdY tyb)"
  by (induction cs) (auto simp: check_Nil check_Cons check_row_cases contact_of_def days_until_of_def split: option.splits if_splits)

lemma example_days_until:
  "map (days_until_of udb midnight_2024_07_20) [jane, bob, carol, dan, eve] =
     [Some 2, Some 7, Some 8, None, Some 0]"
  by (simp add: days_until_of_def date_eval ex_defs)

text \<open>
  C4: the rows of the result are, in the order of the input, the contacts whose
  \<open>days_until\<close> is computed and lies between 0 and the horizon, each with that value; a
  contact at exactly the horizon is in the result, one a day beyond it is not.
\<close>

theorem window_filter_exact:
  "map contact_of (check_upcoming_birthdays udb today cs H) = filter (in_window udb today H) cs \<and>
   (\<forall>r \<in> set (check_upcoming_birthdays udb today cs H).
      days_until_of udb today (contact_of r) = Some (Days_Until r) \<and>
      0 \<le> Days_Until r \<and> Days_Until r \<le> H) \<and>
   (\<forall>c \<in> set cs. 0 \<le> H \<and> days_until_of udb today c = Some H \<longrightarrow>
      c \<in> contact_of ` set (check_upcoming_birthdays udb today cs H)) \<and>
   (\<forall>c \<in> set cs. days_until_of udb today c = Some (H + 1) \<longrightarrow>
      c \<notin> contact_of ` set (check_upcoming_birthdays udb today cs H))"
proof -
  let ?out = "check_upcoming_birthdays udb today cs H"
  have 1: "map contact_of ?out = filter (in_window udb today H) cs"
    by (rule contacts_of_check)
  then have set: "contact_of ` set ?out = {c \<in> set cs. in_window udb today H c}"
    by (metis set_map set_filter)
  have 2: "\<forall>r \<in> set ?out. days_until_of udb today (contact_of r) = Some (Days_Until r) \<and>
             0 \<le> Days_Until r \<and> Days_Until r \<le> H"
  proof
    fix r assume r: "r \<in> set ?out"
    then have d: "days_until_of udb today (contact_of r) = Some (Days_Until r)"
      using days_of_check by blast
    from r have "contact_of r \<in> contact_of ` set ?out" by blast
    with set have "in_window udb today H (contact_of r)" by simp
    with d show "days_until_of udb today (contact_of r) = Some (Days_Until r) \<and>
        0 \<le> Days_Until r \<and> Days_Until r \<le> H"
      by (simp add: in_window_def)
  qed
  have 3: "\<forall>c \<in> set cs. 0 \<le> H \<and> days_until_of udb today c = Some H \<longrightarrow>
             c \<in> contact_of ` set ?out"
    unfolding set by (simp add: in_window_def)
  have 4: "\<forall>c \<in> set cs. days_until_of udb today c = Some (H + 1) \<longrightarrow>
             c \<notin> contact_of ` set ?out"
    unfolding set by (simp add: in_window_def)
  from 1 2 3 4 show ?thesis by blast
qed

theorem window_filter_exact_witness:
  "\<forall>udb.
     map (days_until_of udb midnight_2024_07_20) [jane, bob, carol, dan, eve] =
       [Some 2, Some 7, Some (7 + 1), None, Some 0] \<and>
     map contact_of (check_upcoming_birthdays udb midnight_2024_07_20 [jane, bob, carol, dan, eve] 7) =
       [jane, bob, eve] \<and>
     bob \<in> contact_of ` set (check_upcoming_birthdays udb midnight_2024_07_20 [jane, bob, carol, dan, eve] 7) \<and>
     carol \<notin> contact_of ` set (check_upcoming_birthdays udb midnight_2024_07_20 [jane, bob, carol, dan, eve] 7) \<and>
     map Days_Until (check_upcoming_birthdays udb midnight_2024_07_20 [jane, bob, carol, dan, eve] 7) =
       [2, 7, 0]"
proof
  fix udb
  let ?cs = "[jane, bob, carol, dan, eve]"
  let ?out = "check_upcoming_birthdays udb midnight_2024_07_20 ?cs 7"
  note w = window_filter_exact [of udb midnight_2024_07_20 ?cs 7]
  have d: "map (days_until_of udb midnight_2024_07_20) ?cs = [Some 2, Some 7, Some (7 + 1), None, Some 0]"
    using example_days_until [of udb] by simp
  have c: "map contact_of ?out = [jane, bob, eve]"
    using w d by (simp add: in_window_def)
  have b: "bob \<in> contact_of ` set ?out"
    using w d by simp
  have k: "carol \<notin> contact_of ` set ?out"
    using w d by simp
  have "\<forall>r \<in> set ?out. days_until_of udb midnight_2024_07_20 (contact_of r) = Some (Days_Until r)"
    using w by blast
  then have "map (\<lambda>r. days_until_of udb midnight_2024_07_20 (contact_of r)) ?out = map (\<lambda>r. Some (Days_Until r)) ?out"
    by simp
  then have "map (days_until_of udb midnight_2024_07_20) (map contact_of ?out) = map Some (map Days_Until ?out)"
    by (simp add: comp_def)
  with c d have "map Some (map Days_Until ?out) = map Some [2, 7, 0]"
    by simp
  then have n: "map Days_Until ?out = [2, 7, 0]"
    by (simp only: inj_map_eq_map [OF inj_Some])
  from d c b k n show "map (days_until_of udb midnight_2024_07_20) ?cs = [Some 2, Some 7, Some (7 + 1), None, Some 0] \<and>
     map contact_of ?out = [jane, bob, eve] \<and> bob \<in> contact_of ` set ?out \<and>
     carol \<notin> contact_of ` set ?out \<and> map Days_Until ?out = [2, 7, 0]"
    by blast
qed

lemma loop_step_check_row:
  "loop_step udb today H s s' \<Longrightarrow> \<exists>c. fst s = c # fst s' \<and> snd s' = check_row udb today H c (snd s)"
  by (induction rule: loop_step.induct) (auto simp: check_row_def Let_def)

lemma check_row_loop_step:
  "loop_step udb today H (c # rest, up) (rest, check_row udb today H c up)"
proof (cases "this_year_birthday udb today (Birthdate c)")
  case None
  then show ?thesis by (simp add: check_row_def loop_step.raised)
next
  case (Some tyb)
  show ?thesis
  proof (cases "0 \<le> sub_days tyb today \<and> sub_days tyb today \<le> H")
    case True
    with Some loop_step.appended [of udb today c tyb "sub_days tyb today" H rest up]
    show ?thesis by (simp add: check_row_def Let_def)
  next
    case False
    with Some loop_step.outside [of udb today c tyb "sub_days tyb today" H rest up]
    show ?thesis by (auto simp: check_row_def Let_def)
  qed
qed

lemma steps_fold:
  "(loop_step udb today H)\<^sup>*\<^sup>* s t \<Longrightarrow> fst t = [] \<Longrightarrow> snd t = fold (check_row udb today H) (fst s) (snd s)"
proof (induction rule: converse_rtranclp_induct)
  case base
  then show ?case by simp
next
  case (step y z)
  from loop_step_check_row [OF step.hyps(1)] obtain c where
    "fst y = c # fst z" "snd z = check_row udb today H c (snd y)" by blast
  with step.IH [OF step.prems] show ?case by simp
qed

lemma fold_steps:
  "(loop_step udb today H)\<^sup>*\<^sup>* (cs, up) ([], fold (check_row udb today H) cs up)"
proof (induction cs arbitrary: up)
  case Nil
  then show ?case by simp
next
  case (Cons c cs)
  have "loop_step udb today H (c # cs, up) (cs, check_row udb today H c up)"
    by (rule check_row_loop_step)
  with Cons.IH [of "check_row udb today H c up"] show ?case
    by (simp add: converse_rtranclp_into_rtranclp)
qed

lemma run_is_check: "run udb today cs H out \<Longrightarrow> out = check_upcoming_birthdays udb today cs H"
proof (induction rule: run.induct)
  case (empty_frame days_ahead)
  then show ?case by (simp add: check_upcoming_birthdays_def)
next
  case (looped contacts_df days_ahead upcoming)
  from steps_fold [OF looped.hyps(2)] looped.hyps(1) show ?case
    by (simp add: check_upcoming_birthdays_def)
qed

lemma check_runs: "run udb today cs H (check_upcoming_birthdays udb today cs H)"
proof (cases "cs = []")
  case True
  then show ?thesis by (simp add: check_upcoming_birthdays_def run.empty_frame)
next
  case False
  with fold_steps [of udb today H cs "[]"] show ?thesis
    by (simp add: check_upcoming_birthdays_def run.looped)
qed

text \<open>
  C8: two runs of the filter on the same frame, with the same \<open>today\<close> and the same
  horizon, end with the same result (and a run always exists: \<open>check_runs\<close>).
\<close>

theorem filter_runs_agree:
  assumes "run udb today cs H out1" and "run udb today cs H out2"
  shows "out1 = out2"
proof -
  from assms(1) have "out1 = check_upcoming_birthdays udb today cs H" by (rule run_is_check)
  moreover from assms(2) have "out2 = check_upcoming_birthdays udb today cs H" by (rule run_is_check)
  ultimately show ?thesis by simp
qed

theorem filter_runs_agree_witness:
  "\<forall>udb.
     run udb noon_2024_07_20 [jane] 7 (check_upcoming_birthdays udb noon_2024_07_20 [jane] 7) \<and>
     run udb noon_2024_07_20 [jane] 7
       [\<lparr>Name = Name jane, Address = Address jane, Birthdate = Birthdate jane, Days_Until = 1,
         This_Year_Birthday = py ''07/22/2024''\<rparr>] \<and>
     check_upcoming_birthdays udb noon_2024_07_20 [jane] 7 =
       [\<lparr>Name = Name jane, Address = Address jane, Birthdate = Birthdate jane, Days_Until = 1,
         This_Year_Birthday = py ''07/22/2024''\<rparr>]"
proof
  fix udb
  let ?row = "\<lparr>Name = Name jane, Address = Address jane, Birthdate = Birthdate jane, Days_Until = 1,
         This_Year_Birthday = py ''07/22/2024''\<rparr>"
  let ?tyb = "\<lparr>year = 2024, month = 7, day = 22, hour = 0, minute = 0, second = 0, microsecond = 0\<rparr>"
  have r1: "run udb noon_2024_07_20 [jane] 7 (check_upcoming_birthdays udb noon_2024_07_20 [jane] 7)"
    by (rule check_runs)
  have t: "this_year_birthday udb noon_2024_07_20 (Birthdate jane) = Some ?tyb"
    by (simp add: date_eval ex_defs)
  have s: "sub_days ?tyb noon_2024_07_20 = 1"
    by (simp add: date_eval ex_defs)
  have f: "strftime_mdY ?tyb = py ''07/22/2024''"
    by (simp add: date_eval)
  have "loop_step udb noon_2024_07_20 7 ([jane], []) ([], [] @ [?row])"
    using loop_step.appended [of udb noon_2024_07_20 jane ?tyb 1 7 "[]" "[]"] t s f by simp
  then have "(loop_step udb noon_2024_07_20 7)\<^sup>*\<^sup>* ([jane], []) ([], [?row])"
    by simp
  then have r2: "run udb noon_2024_07_20 [jane] 7 [?row]"
    by (simp add: run.looped)
  from filter_runs_agree [OF r1 r2] r1 r2
  show "run udb noon_2024_07_20 [jane] 7 (check_upcoming_birthdays udb noon_2024_07_20 [jane] 7) \<and>
     run udb noon_2024_07_20 [jane] 7 [?row] \<and>
     check_upcoming_birthdays udb noon_2024_07_20 [jane] 7 = [?row]"
    by simp
qed

lemma replace_year_year: "replace_year d y = Some occ \<Longrightarrow> year occ = y \<and> month occ = month d \<and> day occ = day d"
  by (auto simp: replace_year_def split: if_splits)

text \<open>
  The branch of the source in its own terms: where the birthdate parses and this year's
  occurrence exists, the next occurrence is looked for in the year after the current one
  when this year's occurrence is before \<open>today\<close> as the source compares them, the
  moment of the call with its time of day, and is this year's occurrence otherwise.
\<close>

lemma next_occurrence_branch:
  assumes "strptime_mdY udb (birth_str (Birthdate contact)) = Some birth_date"
    and "replace_year birth_date (year today) = Some this_year"
  shows "(dt_less this_year today \<longrightarrow>
            this_year_birthday udb today (Birthdate contact) =
              replace_year birth_date (year today + 1) \<and>
            (\<forall>occ. this_year_birthday udb today (Birthdate contact) = Some occ \<longrightarrow>
               year occ = year today + 1 \<and> month occ = month birth_date \<and>
               day occ = day birth_date)) \<and>
         (\<not> dt_less this_year today \<longrightarrow>
            this_year_birthday udb today (Birthdate contact) = Some this_year \<and>
            year this_year = year today \<and> month this_year = month birth_date \<and>
            day this_year = day birth_date)"
proof (cases "dt_less this_year today")
  case True
  with assms have eq: "this_year_birthday udb today (Birthdate contact) =
      replace_year birth_date (year today + 1)"
    by (simp add: this_year_birthday_def)
  have "year occ = year today + 1 \<and> month occ = month birth_date \<and> day occ = day birth_date"
    if "this_year_birthday udb today (Birthdate contact) = Some occ" for occ
    using that eq replace_year_year [of birth_date "year today + 1" occ] by simp
  with True eq show ?thesis by blast
next
  case False
  with assms have "this_year_birthday udb today (Birthdate contact) = Some this_year"
    by (simp add: this_year_birthday_def)
  moreover have "year this_year = year today \<and> month this_year = month birth_date \<and>
      day this_year = day birth_date"
    by (rule replace_year_year [OF assms(2)])
  ultimately show ?thesis using False by blast
qed

lemma next_occurrence_branch_examples:
  "\<forall>udb.
     dt_less \<lparr>year = 2024, month = 3, day = 15, hour = 0, minute = 0, second = 0, microsecond = 0\<rparr>
       noon_2024_07_20 \<and>
     this_year_birthday udb noon_2024_07_20
       (Birthdate \<lparr>Name = py ''John Doe'', Address = py ''123 Main St'', Birthdate = py ''03/15/1990''\<rparr>) =
       Some \<lparr>year = 2025, month = 3, day = 15, hour = 0, minute = 0, second = 0, microsecond = 0\<rparr> \<and>
     \<not> dt_less \<lparr>year = 2024, month = 7, day = 22, hour = 0, minute = 0, second = 0, microsecond = 0\<rparr>
       noon_2024_07_20 \<and>
     this_year_birthday udb noon_2024_07_20 (Birthdate jane) =
       Some \<lparr>year = 2024, month = 7, day = 22, hour = 0, minute = 0, second = 0, microsecond = 0\<rparr> \<and>
     dt_less \<lparr>year = 2024, month = 7, day = 20, hour = 0, minute = 0, second = 0, microsecond = 0\<rparr>
       noon_2024_07_20 \<and>
     this_year_birthday udb noon_2024_07_20 (Birthdate eve) =
       Some \<lparr>year = 2025, month = 7, day = 20, hour = 0, minute = 0, second = 0, microsecond = 0\<rparr>"
proof
  fix udb
  let ?john = "\<lparr>Name = py ''John Doe'', Address = py ''123 Main St'', Birthdate = py ''03/15/1990''\<rparr>"
  let ?b1 = "\<lparr>year = 1990, month = 3, day = 15, hour = 0, minute = 0, second = 0, microsecond = 0\<rparr>"
  let ?t1 = "\<lparr>year = 2024, month = 3, day = 15, hour = 0, minute = 0, second = 0, microsecond = 0\<rparr>"
  let ?n1 = "\<lparr>year = 2025, month = 3, day = 15, hour = 0, minute = 0, second = 0, microsecond = 0\<rparr>"
  let ?b2 = "\<lparr>year = 1985, month = 7, day = 22, hour = 0, minute = 0, second = 0, microsecond = 0\<rparr>"
  let ?t2 = "\<lparr>year = 2024, month = 7, day = 22, hour = 0, minute = 0, second = 0, microsecond = 0\<rparr>"
  let ?b3 = "\<lparr>year = 1985, month = 7, day = 20, hour = 0, minute = 0, second = 0, microsecond = 0\<rparr>"
  let ?t3 = "\<lparr>year = 2024, month = 7, day = 20, hour = 0, minute = 0, second = 0, microsecond = 0\<rparr>"
  let ?n3 = "\<lparr>year = 2025, month = 7, day = 20, hour = 0, minute = 0, second = 0, microsecond = 0\<rparr>"
  have p1: "strptime_mdY udb (birth_str (Birthdate ?john)) = Some ?b1"
    by (simp add: date_eval)
  have r1: "replace_year ?b1 (year noon_2024_07_20) = Some ?t1"
    by (simp add: date_eval ex_defs)
  have l1: "dt_less ?t1 noon_2024_07_20"
    by (simp add: date_eval ex_defs)
  have n1: "replace_year ?b1 (year noon_2024_07_20 + 1) = Some ?n1"
    by (simp add: date_eval ex_defs)
  have p2: "strptime_mdY udb (birth_str (Birthdate jane)) = Some ?b2"
    by (simp add: date_eval ex_defs)
  have r2: "replace_year ?b2 (year noon_2024_07_20) = Some ?t2"
    by (simp add: date_eval ex_defs)
  have l2: "\<not> dt_less ?t2 noon_2024_07_20"
    by (simp add: date_eval ex_defs)
  have p3: "strptime_mdY udb (birth_str (Birthdate eve)) = Some ?b3"
    by (simp add: date_eval ex_defs)
  have r3: "replace_year ?b3 (year noon_2024_07_20) = Some ?t3"
    by (simp add: date_eval ex_defs)
  have l3: "dt_less ?t3 noon_2024_07_20"
    by (simp add: date_eval ex_defs)
  have n3: "replace_year ?b3 (year noon_2024_07_20 + 1) = Some ?n3"
    by (simp add: date_eval ex_defs)
  from next_occurrence_branch [OF p1 r1] l1 n1
  have a: "this_year_birthday udb noon_2024_07_20 (Birthdate ?john) = Some ?n1"
    by simp
  from next_occurrence_branch [OF p2 r2] l2
  have b: "this_year_birthday udb noon_2024_07_20 (Birthdate jane) = Some ?t2"
    by simp
  from next_occurrence_branch [OF p3 r3] l3 n3
  have c: "this_year_birthday udb noon_2024_07_20 (Birthdate eve) = Some ?n3"
    by simp
  from l1 a l2 b l3 c show "dt_less ?t1 noon_2024_07_20 \<and>
     this_year_birthday udb noon_2024_07_20 (Birthdate ?john) = Some ?n1 \<and>
     \<not> dt_less ?t2 noon_2024_07_20 \<and>
     this_year_birthday udb noon_2024_07_20 (Birthdate jane) = Some ?t2 \<and>
     dt_less ?t3 noon_2024_07_20 \<and>
     this_year_birthday udb noon_2024_07_20 (Birthdate eve) = Some ?n3"
    by blast
qed

lemma check_row_unparseable:
  "strptime_mdY udb (birth_str (Birthdate c)) = None \<Longrightarrow> check_row udb today H c up = up"
  by (simp add: check_row_def this_year_birthday_def)

lemma check_rows_parse:
  "r \<in> set (check_upcoming_birthdays udb today cs H) \<Longrightarrow>
   strptime_mdY udb (birth_str (Birthdate r)) \<noteq> None"
proof -
  assume "r \<in> set (check_upcoming_birthdays udb today cs H)"
  then obtain tyb where "this_year_birthday udb today (Birthdate r) = Some tyb"
    using days_of_check by blast
  then show ?thesis
    by (auto simp: this_year_birthday_def split: option.splits)
qed

text \<open>
  C6: a contact whose birthdate does not parse is a row of the parser's result like any
  other (the parser never looks into the birthdate), and the filter passes over it: the
  result is the one the frame without that row gives, and no row of any result carries
  such a birthdate. The filter has no way to report anything: it calls nothing of the
  user interface and returns rows only.
\<close>

theorem unparseable_birthdate_kept_then_dropped:
  assumes "strptime_mdY udb (birth_str (Birthdate c)) = None"
  shows "(line \<in> set (split_on nl content) \<and> line_has_record line \<and> record_of_line line = c \<longrightarrow>
            c \<in> set (load_contacts_from_text content)) \<and>
         check_upcoming_birthdays udb today (before @ c # after) H =
           check_upcoming_birthdays udb today (before @ after) H \<and>
         (\<forall>r \<in> set (check_upcoming_birthdays udb today cs H). Birthdate r \<noteq> Birthdate c)"
proof -
  have 1: "line \<in> set (split_on nl content) \<and> line_has_record line \<and> record_of_line line = c \<longrightarrow>
            c \<in> set (load_contacts_from_text content)"
    by (auto simp: load_text_records records_of_text_def)
  have "check_upcoming_birthdays udb today (c # after) H = check_upcoming_birthdays udb today after H"
    using check_row_unparseable [OF assms] by (simp add: check_Cons)
  then have 2: "check_upcoming_birthdays udb today (before @ c # after) H =
           check_upcoming_birthdays udb today (before @ after) H"
    by (simp add: check_append)
  have 3: "\<forall>r \<in> set (check_upcoming_birthdays udb today cs H). Birthdate r \<noteq> Birthdate c"
    using check_rows_parse [of _ udb today cs H] assms by metis
  from 1 2 3 show ?thesis by blast
qed

theorem unparseable_birthdate_witness:
  "\<forall>udb.
     strptime_mdY udb (birth_str (Birthdate dan)) = None \<and>
     dan \<in> set (load_contacts_from_text
                  (py ''Dan Lee, 4 Fir Ln, 1990-07-21\<newline>Jane Smith, 1 Oak Ave, 07/22/1985'')) \<and>
     check_upcoming_birthdays udb midnight_2024_07_20 ([] @ dan # [jane]) 7 =
       check_upcoming_birthdays udb midnight_2024_07_20 ([] @ [jane]) 7 \<and>
     map Name (check_upcoming_birthdays udb midnight_2024_07_20 [dan, jane] 7) = [py ''Jane Smith'']"
proof
  fix udb
  let ?content = "py ''Dan Lee, 4 Fir Ln, 1990-07-21\<newline>Jane Smith, 1 Oak Ave, 07/22/1985''"
  let ?line = "py ''Dan Lee, 4 Fir Ln, 1990-07-21''"
  have h: "strptime_mdY udb (birth_str (Birthdate dan)) = None"
    by (simp add: date_eval ex_defs)
  note u = unparseable_birthdate_kept_then_dropped
    [OF h, of ?line ?content midnight_2024_07_20 "[]" "[jane]" 7 "[dan, jane]"]
  have l: "?line \<in> set (split_on nl ?content)"
    by simp
  have k: "line_has_record ?line"
    by (simp add: line_has_record_def str_eval)
  have e: "record_of_line ?line = dan"
    by (simp add: record_of_line_def str_eval ex_defs)
  from u l k e have 1: "dan \<in> set (load_contacts_from_text ?content)"
    by blast
  from u have 2: "check_upcoming_birthdays udb midnight_2024_07_20 ([] @ dan # [jane]) 7 =
       check_upcoming_birthdays udb midnight_2024_07_20 ([] @ [jane]) 7"
    by blast
  have "map Name (check_upcoming_birthdays udb midnight_2024_07_20 [jane] 7) = [py ''Jane Smith'']"
    by (simp add: check_upcoming_birthdays_def check_row_def date_eval ex_defs)
  with 2 have 3: "map Name (check_upcoming_birthdays udb midnight_2024_07_20 [dan, jane] 7) = [py ''Jane Smith'']"
    by simp
  from h 1 2 3 show "strptime_mdY udb (birth_str (Birthdate dan)) = None \<and>
     dan \<in> set (load_contacts_from_text ?content) \<and>
     check_upcoming_birthdays udb midnight_2024_07_20 ([] @ dan # [jane]) 7 =
       check_upcoming_birthdays udb midnight_2024_07_20 ([] @ [jane]) 7 \<and>
     map Name (check_upcoming_birthdays udb midnight_2024_07_20 [dan, jane] 7) = [py ''Jane Smith'']"
    by blast
qed

subsection \<open>The time of day of \<open>today\<close>\<close>

text \<open>
  \<open>datetime.now()\<close> has a time of day, the occurrences of a birthday are midnights.
  The lemmas of this part say what that does to the days that are counted.
\<close>

lemma div_step:
  fixes y n :: int
  assumes "0 < n"
  shows "y div n - (y - 1) div n = (if y mod n = 0 then 1 else 0)"
proof (cases "y mod n = 0")
  case True
  then have "y = n * (y div n)" by (simp add: mod_eq_0_iff_dvd)
  then have "y - 1 = n * (y div n - 1) + (n - 1)" by (simp add: algebra_simps)
  then have "(y - 1) div n = y div n - 1"
    by (rule int_div_pos_eq) (use assms in simp_all)
  with True show ?thesis by simp
next
  case False
  have "0 \<le> y mod n" "y mod n < n" using assms by simp_all
  with False have r: "0 \<le> y mod n - 1" "y mod n - 1 < n" by simp_all
  have "y - 1 = n * (y div n) + (y mod n - 1)" by simp
  then have "(y - 1) div n = y div n"
    using r by (rule int_div_pos_eq)
  with False show ?thesis by simp
qed

lemma mod_trans:
  fixes y :: nat
  assumes "y mod a = 0" and "b dvd a"
  shows "y mod b = 0"
proof -
  from assms(1) have "a dvd y" by (simp add: mod_eq_0_iff_dvd)
  with assms(2) have "b dvd y" by (rule dvd_trans)
  then show ?thesis by simp
qed

lemma int_mod_nat: "(int y mod int n = 0) = (y mod n = 0)"
  by (metis of_nat_mod of_nat_eq_0_iff)

lemma div_step_nat:
  "0 < n \<Longrightarrow> int y div int n - (int y - 1) div int n = (if y mod n = 0 then 1 else 0)"
  using div_step [of "int n" "int y"] by (simp add: int_mod_nat)

lemma mod_400_100: "(y::nat) mod 400 = 0 \<Longrightarrow> y mod 100 = 0"
  by (rule mod_trans [of y 400 100]) simp_all

lemma mod_100_4: "(y::nat) mod 100 = 0 \<Longrightarrow> y mod 4 = 0"
  by (rule mod_trans [of y 100 4]) simp_all

lemma days_before_next_year:
  "days_before_year (y + 1) - days_before_year y = (if is_leap y then 366 else 365)"
proof -
  have a4: "int y div 4 - (int y - 1) div 4 = (if y mod 4 = 0 then 1 else 0)"
    using div_step_nat [of 4 y] by simp
  have a100: "int y div 100 - (int y - 1) div 100 = (if y mod 100 = 0 then 1 else 0)"
    using div_step_nat [of 100 y] by simp
  have a400: "int y div 400 - (int y - 1) div 400 = (if y mod 400 = 0 then 1 else 0)"
    using div_step_nat [of 400 y] by simp
  have "days_before_year (y + 1) - days_before_year y =
     365 + (int y div 4 - (int y - 1) div 4) - (int y div 100 - (int y - 1) div 100) +
       (int y div 400 - (int y - 1) div 400)"
    by (simp add: days_before_year_def Let_def algebra_simps)
  also have "\<dots> = 365 + (if y mod 4 = 0 then 1 else 0) - (if y mod 100 = 0 then 1 else 0) +
       (if y mod 400 = 0 then 1 else 0)"
    by (simp only: a4 a100 a400)
  also have "\<dots> = (if is_leap y then 366 else 365)"
  proof (cases "y mod 400 = 0")
    case True
    with mod_400_100 [OF True] mod_100_4 [OF mod_400_100 [OF True]] show ?thesis
      by (simp add: is_leap_def)
  next
    case n400: False
    show ?thesis
    proof (cases "y mod 100 = 0")
      case True
      with n400 mod_100_4 [OF True] show ?thesis by (simp add: is_leap_def)
    next
      case False
      with n400 show ?thesis by (simp add: is_leap_def)
    qed
  qed
  finally show ?thesis .
qed

lemma next_year_same_day:
  "toordinal (d\<lparr>year := year d + 1\<rparr>) - toordinal d \<ge> 365"
proof -
  have "days_before_month (year d + 1) (month d) - days_before_month (year d) (month d) \<ge>
        (if is_leap (year d) then -1 else 0)"
    by (simp add: days_before_month_def)
  with days_before_next_year [of "year d"] show ?thesis
    by (simp add: toordinal_def split: if_splits)
qed

lemma sub_days_from_midnight:
  assumes "hour a = 0" "minute a = 0" "second a = 0" "microsecond a = 0"
    and "hour b < 24" "minute b < 60" "second b < 60" "microsecond b < 1000000"
  shows "sub_days a b = toordinal a - toordinal b -
           (if hour b = 0 \<and> minute b = 0 \<and> second b = 0 \<and> microsecond b = 0 then 0 else 1)"
proof -
  let ?N = "86400000000 :: int"
  let ?t = "seconds_of_day b * 1000000 + int (microsecond b)"
  let ?D = "toordinal a - toordinal b"
  have t0: "0 \<le> ?t" by (simp add: seconds_of_day_def)
  have "seconds_of_day b \<le> 59 + 59 * 60 + 23 * 3600"
    using assms(5-7) unfolding seconds_of_day_def by linarith
  with assms(8) have tN: "?t < ?N" by linarith
  have s: "sub_days a b = (?D * ?N - ?t) div ?N"
    using assms(1-4) by (simp add: sub_days_def seconds_of_day_def algebra_simps)
  show ?thesis
  proof (cases "hour b = 0 \<and> minute b = 0 \<and> second b = 0 \<and> microsecond b = 0")
    case True
    then have "?t = 0" by (simp add: seconds_of_day_def)
    with s True show ?thesis by simp
  next
    case False
    then have "0 < ?t" by (auto simp: seconds_of_day_def)
    with tN have r: "0 \<le> ?N - ?t" "?N - ?t < ?N" by simp_all
    have "?D * ?N - ?t = ?N * (?D - 1) + (?N - ?t)" by (simp add: algebra_simps)
    then have "(?D * ?N - ?t) div ?N = ?D - 1"
      using r by (rule int_div_pos_eq)
    with s False show ?thesis by simp
  qed
qed

lemma strptime_midnight:
  "strptime_mdY udb s = Some b \<Longrightarrow>
   hour b = 0 \<and> minute b = 0 \<and> second b = 0 \<and> microsecond b = 0"
  by (auto simp: strptime_mdY_def split: list.splits option.splits if_splits)

lemma occurrence_before_today_by_date:
  assumes "strptime_mdY udb s = Some b"
    and "replace_year b (year today) = Some t"
  shows "dt_less t today \<longleftrightarrow>
           month b < month today \<or>
           (month b = month today \<and>
            (day b < day today \<or> (day b = day today \<and> \<not> at_midnight today)))"
proof -
  from strptime_midnight [OF assms(1)]
  have b0: "hour b = 0" "minute b = 0" "second b = 0" "microsecond b = 0" by simp_all
  from assms(2) have t: "t = b\<lparr>year := year today\<rparr>"
    by (auto simp: replace_year_def split: if_splits)
  show ?thesis
    unfolding t dt_less_def cmp_key_def at_midnight_def using b0 by auto
qed

lemma next_occurrence_by_calendar_day:
  assumes "strptime_mdY udb (birth_str (Birthdate contact)) = Some b"
    and "replace_year b (year today) = Some t"
  shows "month b < month today \<or> (month b = month today \<and> day b < day today) \<Longrightarrow>
           this_year_birthday udb today (Birthdate contact) = replace_year b (year today + 1)"
    and "month today < month b \<or> (month b = month today \<and> day today < day b) \<Longrightarrow>
           this_year_birthday udb today (Birthdate contact) = Some t"
    and "month b = month today \<Longrightarrow> day b = day today \<Longrightarrow> at_midnight today \<Longrightarrow>
           this_year_birthday udb today (Birthdate contact) = Some t"
    and "month b = month today \<Longrightarrow> day b = day today \<Longrightarrow> \<not> at_midnight today \<Longrightarrow>
           this_year_birthday udb today (Birthdate contact) = replace_year b (year today + 1)"
proof -
  note less = occurrence_before_today_by_date [OF assms]
  note branch = next_occurrence_branch [OF assms]
  {
    assume "month b < month today \<or> (month b = month today \<and> day b < day today)"
    with less have "dt_less t today" by blast
    with branch show "this_year_birthday udb today (Birthdate contact) =
        replace_year b (year today + 1)" by blast
  }
  {
    assume "month today < month b \<or> (month b = month today \<and> day today < day b)"
    with less have "\<not> dt_less t today" by auto
    with branch show "this_year_birthday udb today (Birthdate contact) = Some t" by blast
  }
  {
    assume "month b = month today" "day b = day today" "at_midnight today"
    with less have "\<not> dt_less t today" by auto
    with branch show "this_year_birthday udb today (Birthdate contact) = Some t" by blast
  }
  {
    assume "month b = month today" "day b = day today" "\<not> at_midnight today"
    with less have "dt_less t today" by auto
    with branch show "this_year_birthday udb today (Birthdate contact) =
        replace_year b (year today + 1)" by blast
  }
qed

text \<open>
  C5: a birthdate whose month and day are those of the day of the call has not already
  occurred this year, so its next occurrence should fall in the current year. At noon of
  the 20th of July 2024 the birthdate 07/20/1985 parses to the 20th of July, this year's
  occurrence is the midnight that began the day of the call, the source finds it before
  \<open>today\<close> and takes the occurrence of 2025. Only a call at midnight sharp keeps the
  occurrence of 2024. For every other month and day the year is the one the claim names
  (\<open>next_occurrence_by_calendar_day\<close>).
\<close>

theorem birthday_today_moved_to_next_year_at_noon:
  "strptime_mdY udb (birth_str (Birthdate eve)) =
     Some \<lparr>year = 1985, month = 7, day = 20, hour = 0, minute = 0, second = 0, microsecond = 0\<rparr> \<and>
   month noon_2024_07_20 = 7 \<and> day noon_2024_07_20 = 20 \<and> year noon_2024_07_20 = 2024 \<and>
   this_year_birthday udb noon_2024_07_20 (Birthdate eve) =
     Some \<lparr>year = 2025, month = 7, day = 20, hour = 0, minute = 0, second = 0, microsecond = 0\<rparr> \<and>
   this_year_birthday udb midnight_2024_07_20 (Birthdate eve) =
     Some \<lparr>year = 2024, month = 7, day = 20, hour = 0, minute = 0, second = 0, microsecond = 0\<rparr>"
  by (simp add: date_eval ex_defs)

lemma birthday_on_the_day:
  assumes v: "valid_datetime today"
    and p: "strptime_mdY udb (birth_str (Birthdate c)) = Some b"
    and md: "month b = month today" "day b = day today"
  shows "at_midnight today \<Longrightarrow> days_until_of udb today c = Some 0"
    and "\<not> at_midnight today \<Longrightarrow> days_until_of udb today c = Some d \<Longrightarrow> 364 \<le> d"
proof -
  let ?t = "b\<lparr>year := year today\<rparr>"
  from strptime_midnight [OF p]
  have b0: "hour b = 0" "minute b = 0" "second b = 0" "microsecond b = 0" by simp_all
  from v md have r: "replace_year b (year today) = Some ?t"
    by (simp add: replace_year_def valid_datetime_def)
  have ord: "toordinal ?t = toordinal today"
    using md by (simp add: toordinal_def)
  from v have tv: "hour today < 24" "minute today < 60" "second today < 60"
    "microsecond today < 1000000"
    by (simp_all add: valid_datetime_def)
  have less: "dt_less ?t today \<longleftrightarrow> \<not> at_midnight today"
    using md b0 by (auto simp: dt_less_def cmp_key_def at_midnight_def)
  {
    assume m: "at_midnight today"
    with less p r have "this_year_birthday udb today (Birthdate c) = Some ?t"
      by (simp add: this_year_birthday_def)
    moreover have "sub_days ?t today = 0"
      using sub_days_from_midnight [of ?t today] b0 tv ord m by (simp add: at_midnight_def)
    ultimately show "days_until_of udb today c = Some 0"
      by (simp add: days_until_of_def)
  }
  {
    assume m: "\<not> at_midnight today" and d: "days_until_of udb today c = Some d"
    from m less p r have "this_year_birthday udb today (Birthdate c) = replace_year b (year today + 1)"
      by (simp add: this_year_birthday_def)
    with d obtain t' where t': "replace_year b (year today + 1) = Some t'" "d = sub_days t' today"
      by (auto simp: days_until_of_def split: option.splits)
    from t'(1) have eq: "t' = ?t\<lparr>year := year ?t + 1\<rparr>"
      by (auto simp: replace_year_def split: if_splits)
    have "sub_days t' today = toordinal t' - toordinal today - 1"
      using sub_days_from_midnight [of t' today] b0 tv m eq by (simp add: at_midnight_def)
    moreover have "toordinal t' - toordinal today \<ge> 365"
      using next_year_same_day [of ?t] ord eq by simp
    ultimately show "364 \<le> d" using t'(2) by simp
  }
qed

lemma birthday_on_the_day_result:
  assumes "valid_datetime today"
    and "strptime_mdY udb (birth_str (Birthdate c)) = Some b"
    and "month b = month today" "day b = day today"
    and "c \<in> set cs"
  shows "at_midnight today \<Longrightarrow> 0 \<le> H \<Longrightarrow>
           c \<in> contact_of ` set (check_upcoming_birthdays udb today cs H)"
    and "\<not> at_midnight today \<Longrightarrow> H < 364 \<Longrightarrow>
           c \<notin> contact_of ` set (check_upcoming_birthdays udb today cs H)"
proof -
  have set: "contact_of ` set (check_upcoming_birthdays udb today cs H) =
      {c \<in> set cs. in_window udb today H c}"
    using contacts_of_check [of udb today cs H] by (metis set_map set_filter)
  {
    assume "at_midnight today" "0 \<le> H"
    with birthday_on_the_day(1) [OF assms(1-4)] assms(5)
    show "c \<in> contact_of ` set (check_upcoming_birthdays udb today cs H)"
      unfolding set by (simp add: in_window_def)
  }
  {
    assume m: "\<not> at_midnight today" and H: "H < 364"
    have "\<not> in_window udb today H c"
    proof (cases "days_until_of udb today c")
      case None
      then show ?thesis by (simp add: in_window_def)
    next
      case (Some d)
      from birthday_on_the_day(2) [OF assms(1-4) m Some] H Some show ?thesis
        by (simp add: in_window_def)
    qed
    then show "c \<notin> contact_of ` set (check_upcoming_birthdays udb today cs H)"
      unfolding set by simp
  }
qed

text \<open>
  C1: a birthday on the day of the call. At noon of the 20th of July 2024 this year's
  occurrence of a birthdate of 20 July, which is midnight of that day, is before
  \<open>today\<close>; the occurrence of 2025 is taken, 364 days ahead, and with a horizon of 7 the
  contact is not in the result. Only a call at midnight sharp gives 0 days; for every
  other moment of a birthday and every horizon below 364 the contact is left out
  (\<open>birthday_on_the_day_result\<close>).
\<close>

theorem birthday_today_left_out_at_noon:
  "this_year_birthday udb noon_2024_07_20 (Birthdate eve) =
     Some \<lparr>year = 2025, month = 7, day = 20, hour = 0, minute = 0, second = 0, microsecond = 0\<rparr> \<and>
   days_until_of udb noon_2024_07_20 eve = Some 364 \<and>
   check_upcoming_birthdays udb noon_2024_07_20 [eve] 7 = [] \<and>
   check_upcoming_birthdays udb midnight_2024_07_20 [eve] 7 =
     [\<lparr>Name = py ''Eve Kim'', Address = py ''5 Bay Ct'', Birthdate = py ''07/20/1985'',
       Days_Until = 0, This_Year_Birthday = py ''07/20/2024''\<rparr>]"
  by (simp add: check_upcoming_birthdays_def check_row_def days_until_of_def date_eval ex_defs)

lemma jane_example_any_time:
  assumes "h < 24" "m < 60" "s < 60" "u < 1000000"
  shows "check_upcoming_birthdays udb
           \<lparr>year = 2024, month = 7, day = 20, hour = h, minute = m, second = s, microsecond = u\<rparr>
           [jane] 7 =
         [\<lparr>Name = py ''Jane Smith'', Address = py ''1 Oak Ave'', Birthdate = py ''07/22/1985'',
           Days_Until = (if h = 0 \<and> m = 0 \<and> s = 0 \<and> u = 0 then 2 else 1),
           This_Year_Birthday = py ''07/22/2024''\<rparr>]"
proof -
  let ?today = "\<lparr>year = 2024, month = 7, day = 20, hour = h, minute = m, second = s, microsecond = u\<rparr>"
  let ?tyb = "\<lparr>year = 2024, month = 7, day = 22, hour = 0, minute = 0, second = 0, microsecond = 0\<rparr>"
  have t: "this_year_birthday udb ?today (Birthdate jane) = Some ?tyb"
    by (simp add: this_year_birthday_def birth_str_def strptime_mdY_def replace_year_def dt_less_def
        cmp_key_def days_in_month_def is_leap_def decimal_def digit19_def replace_chr_def ex_defs)
  have o: "toordinal ?tyb - toordinal ?today = 2"
    by (simp add: toordinal_def days_before_month_def)
  have d: "sub_days ?tyb ?today = (if h = 0 \<and> m = 0 \<and> s = 0 \<and> u = 0 then 2 else 1)"
    using sub_days_from_midnight [of ?tyb ?today] assms o by simp
  have f: "strftime_mdY ?tyb = py ''07/22/2024''"
    by (simp add: strftime_mdY_def pad2_def pad4_def)
  from t d f show ?thesis
    by (simp add: check_upcoming_birthdays_def check_row_def ex_defs)
qed

text \<open>
  C2: the example of the specification. On the 20th of July 2024 at noon the line gives
  Jane with the occurrence 07/22/2024 and 1 day, not 2: the difference to the midnight
  that begins the birthday is a day and a half, and its days are rounded down. Only a
  call at midnight sharp gives 2 days (\<open>jane_example_any_time\<close>).
\<close>

theorem jane_example_at_noon:
  "check_upcoming_birthdays udb noon_2024_07_20
     (load_contacts_from_text (py ''Jane Smith, 1 Oak Ave, 07/22/1985'')) 7 =
     [\<lparr>Name = py ''Jane Smith'', Address = py ''1 Oak Ave'', Birthdate = py ''07/22/1985'',
       Days_Until = 1, This_Year_Birthday = py ''07/22/2024''\<rparr>] \<and>
   check_upcoming_birthdays udb midnight_2024_07_20
     (load_contacts_from_text (py ''Jane Smith, 1 Oak Ave, 07/22/1985'')) 7 =
     [\<lparr>Name = py ''Jane Smith'', Address = py ''1 Oak Ave'', Birthdate = py ''07/22/1985'',
       Days_Until = 2, This_Year_Birthday = py ''07/22/2024''\<rparr>]"
  by (simp add: load_contacts_from_text_def load_line_def contact_of_parts_def str_eval
      check_upcoming_birthdays_def check_row_def date_eval ex_defs)

section \<open>Properties of the postage link\<close>

lemma replace_chr_Nil: "replace_chr old new [] = []"
  by (simp add: replace_chr_def)

lemma replace_chr_Cons:
  "replace_chr old new (c # s) = (if c = old then new else [c]) @ replace_chr old new s"
  by (simp add: replace_chr_def)

lemma replace_chr_append:
  "replace_chr old new (a @ b) = replace_chr old new a @ replace_chr old new b"
  by (simp add: replace_chr_def)

text \<open>
  C9: the link is the fixed base URL, \<open>?destination=\<close> and the address in which every
  space has become \<open>%20\<close> and every comma \<open>%2C\<close>; every other character is copied as
  it is, and every address gets a link. The two passes of the source do not disturb each
  other: the text the first one inserts holds no comma.
\<close>

theorem postage_link_escapes:
  "generate_usps_postage_link address =
     py ''https://cns.usps.com/mailpieces?destination='' @ concat (map escape_chr address)"
proof -
  have "replace_chr (of_char CHR '','') (py ''%2C'')
          (replace_chr (of_char CHR '' '') (py ''%20'') address) =
        concat (map escape_chr address)"
    by (induction address)
      (simp_all add: replace_chr_Nil replace_chr_Cons replace_chr_append escape_chr_def)
  then show ?thesis
    by (simp add: generate_usps_postage_link_def)
qed

section \<open>Properties of the card\<close>

lemma fold_draw_line_fill:
  "d \<in> set (draws (fst (fold (draw_line f w colour) lines st))) \<Longrightarrow>
   d \<in> set (draws (fst st)) \<or> fill d = colour"
proof (induction lines arbitrary: st)
  case Nil
  then show ?case by simp
next
  case (Cons l lines)
  from Cons.prems
  have "d \<in> set (draws (fst (fold (draw_line f w colour) lines (draw_line f w colour l st))))"
    by simp
  from Cons.IH [OF this] show ?case
    by (auto simp: draw_line_def draw_text_def Let_def)
qed

lemma fold_draw_line_color:
  "img_color (fst (fold (draw_line f w colour) lines st)) = img_color (fst st)"
  by (induction lines arbitrary: st) (simp_all add: draw_line_def draw_text_def Let_def)

lemma render_card_color: "img_color (render_card f t message rn) = bg t"
  by (simp add: render_card_def Let_def fold_draw_line_color draw_text_def)

lemma render_card_fill:
  assumes "d \<in> set (draws (render_card f t message rn))"
  shows "fill d = text' t"
proof -
  from assms obtain lines img where
    d: "d \<in> set (draws (fst (fold (draw_line f 400 (text' t)) lines (img, 120))))"
    and img: "draws img =
      [\<lparr>xy = ((400 - title_width f (py ''Happy Birthday, '' @ rn @ py ''!'')) div 2, 50),
        text_arg = py ''Happy Birthday, '' @ rn @ py ''!'', fill = text' t\<rparr>]"
    unfolding render_card_def Let_def draw_text_def by (auto simp del: list.map map_append)
  from fold_draw_line_fill [OF d] img show ?thesis by auto
qed

lemma index_Classic:
  "dict_index templates (py ''Classic'') = Inr \<lparr>bg = py ''#FFE4E1'', text' = py ''#8B0000''\<rparr>"
  by (simp add: dict_index_def templates_def)

lemma get_Classic:
  "dict_get templates (py ''Classic'') t = \<lparr>bg = py ''#FFE4E1'', text' = py ''#8B0000''\<rparr>"
  by (simp add: dict_get_def templates_def)

lemma get_other:
  "card_type \<notin> {py ''Classic'', py ''Modern'', py ''Fun'', py ''Elegant''} \<Longrightarrow>
   dict_get templates card_type t = t"
  by (simp add: dict_get_def templates_def)

text \<open>
  C10: for a style name that is none of the four presets the card is made, and it is the
  card of the style \<open>Classic\<close>: the background is \<open>#FFE4E1\<close> and every text is drawn in
  \<open>#8B0000\<close>.
\<close>

theorem unknown_style_falls_back_to_classic:
  assumes "card_type \<notin> {py ''Classic'', py ''Modern'', py ''Fun'', py ''Elegant''}"
  shows "\<exists>img. create_birthday_card f card_type message recipient_name = Inr img \<and>
           create_birthday_card f (py ''Classic'') message recipient_name = Inr img \<and>
           img_color img = py ''#FFE4E1'' \<and>
           (\<forall>d \<in> set (draws img). fill d = py ''#8B0000'')"
proof -
  let ?c = "\<lparr>bg = py ''#FFE4E1'', text' = py ''#8B0000''\<rparr>"
  let ?img = "render_card f ?c message recipient_name"
  have 1: "create_birthday_card f card_type message recipient_name = Inr ?img"
    unfolding create_birthday_card_def index_Classic get_other [OF assms] by simp
  have 2: "create_birthday_card f (py ''Classic'') message recipient_name = Inr ?img"
    unfolding create_birthday_card_def index_Classic get_Classic by simp
  have 3: "img_color ?img = py ''#FFE4E1''"
    unfolding render_card_color by simp
  have 4: "\<forall>d \<in> set (draws ?img). fill d = py ''#8B0000''"
    using render_card_fill [of _ f ?c message recipient_name] by simp
  from 1 2 3 4 show ?thesis by blast
qed

theorem unknown_style_witness:
  "py ''Retro'' \<notin> {py ''Classic'', py ''Modern'', py ''Fun'', py ''Elegant''} \<and>
   (\<exists>img. create_birthday_card
            \<lparr>title_width = (\<lambda>s. 14 * int (length s)), text_width = (\<lambda>s. 9 * int (length s))\<rparr>
            (py ''Retro'') (py ''Many happy returns'') (py ''Jane'') = Inr img \<and>
          create_birthday_card
            \<lparr>title_width = (\<lambda>s. 14 * int (length s)), text_width = (\<lambda>s. 9 * int (length s))\<rparr>
            (py ''Classic'') (py ''Many happy returns'') (py ''Jane'') = Inr img \<and>
          img_color img = py ''#FFE4E1'' \<and>
          (\<forall>d \<in> set (draws img). fill d = py ''#8B0000''))"
proof -
  have h: "py ''Retro'' \<notin> {py ''Classic'', py ''Modern'', py ''Fun'', py ''Elegant''}"
    by simp
  from h unknown_style_falls_back_to_classic [OF h] show ?thesis by blast
qed

end
